theory Spec2Isabelle
  imports Complex_Main
begin

section \<open>Python primitives used by techo.py\<close>

text \<open>
  A Python \<open>str\<close> is a sequence of Unicode code points. The message is modelled as a
  list of code points (\<open>ustr\<close>); the face bitmaps and the palette are pure ASCII and are
  modelled as \<open>string\<close>.
\<close>

type_synonym ustr = "nat list"

datatype py_error = IndexError | ValueError

text \<open>
  \<open>int(x)\<close> on a float truncates toward zero. Every float the program converts is an
  integer or an integer plus one half made from list lengths and line counts, which
  binary floating point represents exactly (below \<open>2^52\<close>), so these floats are
  modelled by rationals.
\<close>

definition py_int :: "rat \<Rightarrow> int" where
  "py_int x = (if 0 \<le> x then \<lfloor>x\<rfloor> else \<lceil>x\<rceil>)"

text \<open>\<open>xs[i]\<close>: a negative index counts from the end, out of range raises IndexError.\<close>

definition py_index :: "'a list \<Rightarrow> int \<Rightarrow> py_error + 'a" where
  "py_index xs i =
     (if 0 \<le> i \<and> i < int (length xs) then Inr (xs ! nat i)
      else if i < 0 \<and> - int (length xs) \<le> i then Inr (xs ! nat (int (length xs) + i))
      else Inl IndexError)"

text \<open>
  \<open>xs[i:j]\<close>: each bound is shifted by the length when negative and then clipped to
  \<open>[0, len]\<close>; slicing never raises.
\<close>

definition slice_bound :: "int \<Rightarrow> int \<Rightarrow> int" where
  "slice_bound n i = (if i < 0 then max 0 (n + i) else min i n)"

definition py_slice :: "'a list \<Rightarrow> int \<Rightarrow> int \<Rightarrow> 'a list" where
  "py_slice xs i j =
     (let n = int (length xs); a = slice_bound n i; b = slice_bound n j
      in take (nat (b - a)) (drop (nat a) xs))"

text \<open>
  \<open>int(s, 16)\<close> on a string of hexadecimal digits. Anything else is reported as
  ValueError (Python also accepts a sign, a \<open>0x\<close> prefix, underscores and surrounding
  white space; none of them occurs in the palette).
\<close>

definition hexDigit :: "char \<Rightarrow> py_error + int" where
  "hexDigit c =
     (let k = (of_char c :: nat)
      in if 48 \<le> k \<and> k \<le> 57 then Inr (int k - 48)
         else if 97 \<le> k \<and> k \<le> 102 then Inr (int k - 87)
         else if 65 \<le> k \<and> k \<le> 70 then Inr (int k - 55)
         else Inl ValueError)"

fun int16_acc :: "int \<Rightarrow> string \<Rightarrow> py_error + int" where
  "int16_acc acc [] = Inr acc"
| "int16_acc acc (c # cs) =
     (case hexDigit c of Inl e \<Rightarrow> Inl e | Inr d \<Rightarrow> int16_acc (16 * acc + d) cs)"

definition int16 :: "string \<Rightarrow> py_error + int" where
  "int16 s = (if s = [] then Inl ValueError else int16_acc 0 s)"

section \<open>Palette and faces\<close>

definition palette :: "string list" where
  "palette =
    [''2d272a'',
     ''ff0026'',
     ''cc001e'',
     ''b3001a'',
     ''ee0e46'',
     ''f6cdcb'',
     ''f79ca1'',
     ''925b6e'',
     ''76445f'']"

definition hexToRGB :: "string \<Rightarrow> py_error + (int \<times> int \<times> int)" where
  "hexToRGB hex =
     (case int16 (py_slice hex 0 2) of
        Inl e \<Rightarrow> Inl e
      | Inr r \<Rightarrow>
          (case int16 (py_slice hex 2 4) of
             Inl e \<Rightarrow> Inl e
           | Inr g \<Rightarrow>
               (case int16 (py_slice hex 4 6) of
                  Inl e \<Rightarrow> Inl e
                | Inr b \<Rightarrow> Inr (r, g, b))))"

text \<open>The six faces of the table \<open>img\<close> (lines 115-306).\<close>

definition face0 :: "string list" where
  "face0 =
    [''...........112...........'',
     ''..........12.............'',
     ''..........2..............'',
     ''...........2.............'',
     ''..........12.11113...13..'',
     ''.....12..1111121113.11133'',
     ''...1112..12111121113.1113'',
     ''..112.2.11111121111111113'',
     ''..12.2.111111111111211113'',
     ''....111111111111111211113'',
     ''..12.31112111121111111213'',
     ''..12.32112211122111122123'',
     ''..112.3112122112211121213'',
     ''...12.3121161212211112123'',
     ''...112.322661166621111213'',
     ''....12.35540516406213.3..'',
     ''....1121155555555613..13.'',
     ''.....12.15555655663..123.'',
     ''.....11..155555556...113.'',
     ''......11...500056.....3..'',
     ''............5556......3..'',
     ''.............666.........'',
     ''...........776678........'',
     ''........57717777188......'',
     ''.......567717171777856...'',
     ''......56777718177785556..'',
     ''.....556777771777785556..'',
     ''.....55677777777785556...'']"

definition face1 :: "string list" where
  "face1 =
    [''...........112...........'',
     ''..........12.............'',
     ''..........2..............'',
     ''...........2.............'',
     ''..........12.11113...13..'',
     ''.....12..1111111113.11133'',
     ''...1112..12111121113.1113'',
     ''..112.2.11111121111112113'',
     ''..12.2.111111111111211113'',
     ''....111111111111111211113'',
     ''..12.31112111121111111213'',
     ''..12.32112211112111122123'',
     ''..112.3112621156211121213'',
     ''...12.3125562155611112123'',
     ''...112.325056150552111213'',
     ''....12.31050550505213.3..'',
     ''....1121155555555613..13.'',
     ''.....12.15555555661..123.'',
     ''.....11..150110566...113.'',
     ''......11...500556.....3..'',
     ''............5556......3..'',
     ''.............666.........'',
     ''...........776678........'',
     ''........57717777188......'',
     ''.......567717171777856...'',
     ''......56777718177785556..'',
     ''.....556777771777785556..'',
     ''.....55677777777785556...'']"

definition face2 :: "string list" where
  "face2 =
    [''...........112...........'',
     ''..........12.............'',
     ''..........2..............'',
     ''...........2.............'',
     ''..........12.11113...13..'',
     ''.....12..1111121113.11133'',
     ''...1112..12111121113.1113'',
     ''..112.2.11111121111111113'',
     ''..12.2.111111111111211113'',
     ''....111111111111111211113'',
     ''..12.31112111121111111213'',
     ''..12.32112211122111122123'',
     ''..112.3112122112211121213'',
     ''...12.3121161212211112123'',
     ''...112.322661166621111213'',
     ''....12.35540516406213.3..'',
     ''....1121155555555613..13.'',
     ''.....12.15555555663..123.'',
     ''.....11..150110556...113.'',
     ''......11...500556.....3..'',
     ''............5556......3..'',
     ''.............666.........'',
     ''...........776678........'',
     ''........57717777188......'',
     ''.......567717171777856...'',
     ''......56777718177785556..'',
     ''.....556777771777785556..'',
     ''.....55677777777785556...'']"

definition face3 :: "string list" where
  "face3 =
    [''...........112...........'',
     ''..........12.............'',
     ''..........2..............'',
     ''...........2.............'',
     ''..........12.11113...13..'',
     ''.....12..1111121113.11133'',
     ''...1112..12111121113.1113'',
     ''..112.2.11111121111111113'',
     ''..12.2.111111111111211113'',
     ''....111111111111111211113'',
     ''..12.31112111121111111213'',
     ''..12.32112211122111122123'',
     ''..112.3112122112211121213'',
     ''...12.3121161212211112123'',
     ''...112.322000160001111213'',
     ''....12.35504516046213.3..'',
     ''....1121155555555613..13.'',
     ''.....12.15555655663..123.'',
     ''.....11..155555556...113.'',
     ''......11...501056.....3..'',
     ''............5556......3..'',
     ''.............666.........'',
     ''...........776678........'',
     ''........57717777188......'',
     ''.......567717171777856...'',
     ''......56777718177785556..'',
     ''.....556777771777785556..'',
     ''.....55677777777785556...'']"

definition face4 :: "string list" where
  "face4 =
    [''...........112...........'',
     ''..........12.............'',
     ''..........2..............'',
     ''...........2.............'',
     ''..........12.11113...13..'',
     ''.....12..1111121113.11133'',
     ''...1112..12111121113.1113'',
     ''..112.2.11111121111111113'',
     ''..12.2.111111111111211113'',
     ''....111111111111111211113'',
     ''..12.31112111121111111213'',
     ''..12.32112211122111122123'',
     ''..112.3112122112211121213'',
     ''...12.3121011210211112123'',
     ''...112.320505105021111213'',
     ''....12.35050550506213.3..'',
     ''....1121150555505613..13.'',
     ''.....12.15555555563..123.'',
     ''.....11..155000556...113.'',
     ''......11...501056.....3..'',
     ''............5556......3..'',
     ''.............666.........'',
     ''...........776678........'',
     ''........57717777188......'',
     ''.......567717171777856...'',
     ''......56777718177785556..'',
     ''.....556777771777785556..'',
     ''.....55677777777785556...'']"

definition face5 :: "string list" where
  "face5 =
    [''...........112...........'',
     ''..........12.............'',
     ''..........2..............'',
     ''...........2.............'',
     ''..........12.11113...13..'',
     ''.....12..1111121113.11133'',
     ''...1112..12111121113.1113'',
     ''..112.2.11111121111111113'',
     ''..12.2.111111111111211113'',
     ''....111111111111111211113'',
     ''..12.31112111121111111213'',
     ''..12.32112211122111122123'',
     ''..112.3112122112211121213'',
     ''...12.3121111212211112123'',
     ''...112.320001100021111213'',
     ''....12.35545555456213.3..'',
     ''....1121100055000613..13.'',
     ''.....12.15655655663..123.'',
     ''.....11..155555556...113.'',
     ''......11...501056.....3..'',
     ''............5556......3..'',
     ''.............666.........'',
     ''...........776678........'',
     ''........57717777188......'',
     ''.......567717171777856...'',
     ''......56777718177785556..'',
     ''.....556777771777785556..'',
     ''.....55677777777785556...'']"

definition img :: "string list list" where
  "img = [face0, face1, face2, face3, face4, face5]"

section \<open>Sanitizer (lines 361-365)\<close>

definition replace_tab :: "ustr \<Rightarrow> ustr" where
  "replace_tab s = map (\<lambda>c. if c = 9 then 32 else c) s"

definition rstrip_nl :: "ustr \<Rightarrow> ustr" where
  "rstrip_nl s = rev (dropWhile (\<lambda>c. c = 10) (rev s))"

text \<open>
  The line boundaries of \<open>str.splitlines\<close>: LF, VT, FF, CR, FS, GS, RS, NEL, LS, PS;
  CR followed by LF is one boundary. A last line is produced only when it is not empty.
\<close>

definition is_linebreak :: "nat \<Rightarrow> bool" where
  "is_linebreak c =
     (c = 10 \<or> c = 11 \<or> c = 12 \<or> c = 13 \<or> c = 28 \<or> c = 29 \<or> c = 30 \<or>
      c = 133 \<or> c = 8232 \<or> c = 8233)"

fun splitlines_from :: "ustr \<Rightarrow> ustr \<Rightarrow> ustr list" where
  "splitlines_from cur [] = (if cur = [] then [] else [cur])"
| "splitlines_from cur (c # cs) =
     (if is_linebreak c then
        (case cs of
           d # ds \<Rightarrow> if c = 13 \<and> d = 10 then cur # splitlines_from [] ds
                    else cur # splitlines_from [] cs
         | [] \<Rightarrow> cur # splitlines_from [] cs)
      else splitlines_from (cur @ [c]) cs)"

definition splitlines :: "ustr \<Rightarrow> ustr list" where
  "splitlines s = splitlines_from [] s"

text \<open>\<open>re.sub(r'[\x00-\x1F\x7F]', '', s)\<close>\<close>

definition is_ctrl :: "nat \<Rightarrow> bool" where
  "is_ctrl c = (c \<le> 31 \<or> c = 127)"

definition strip_ctrl :: "ustr \<Rightarrow> ustr" where
  "strip_ctrl s = filter (\<lambda>c. \<not> is_ctrl c) s"

definition sanitize :: "ustr \<Rightarrow> ustr" where
  "sanitize raw =
     (let msg = rstrip_nl (replace_tab raw)
      in fold (\<lambda>s msgTmp. msgTmp @ strip_ctrl s @ [10]) (splitlines msg) [])"

text \<open>Lines 371-372: the number of output lines, at least 1.\<close>

definition lineNumOf :: "ustr \<Rightarrow> int" where
  "lineNumOf msg = (let lineNum = int (count_list msg 10) in if lineNum \<le> 0 then 1 else lineNum)"

section \<open>Face Selector (lines 378-387)\<close>

definition windowBounds :: "int \<Rightarrow> int \<Rightarrow> int \<times> int" where
  "windowBounds H lineNum =
     (if lineNum < 6 then
        (let yStart = py_int (of_int H / 2) - py_int (6 / 2) + 2 in (yStart, yStart + 6))
      else if lineNum + 2 < H then
        (let yStart = py_int (of_int H / 2) - py_int (of_int lineNum / 2) + 1
         in (yStart, yStart + lineNum + 1))
      else (0, H))"

definition faceWindow :: "bool \<Rightarrow> string list \<Rightarrow> int \<Rightarrow> string list" where
  "faceWindow showWhole face lineNum =
     (if showWhole then face
      else (case windowBounds (int (length face)) lineNum of
              (yStart, yEnd) \<Rightarrow> py_slice face yStart yEnd))"

section \<open>Width Engine (lines 393-442)\<close>

text \<open>
  What a stage of the script hands on: an uncaught exception; \<open>exit()\<close>, with
  everything the run has written to standard output and to standard error (no
  statement before the renderer writes to standard output); or the value the next
  stage works on.
\<close>

datatype 'a outcome = Raised py_error | Exited string string | Continue 'a

definition marginR :: "int \<Rightarrow> string list \<Rightarrow> string list outcome" where
  "marginR width face =
     (case py_index face 0 of
        Inl e \<Rightarrow> Raised e
      | Inr row0 \<Rightarrow>
          (let mWidth = width - int (length row0) * 2
           in if mWidth > 0
              then Continue (map (\<lambda>row. replicate (nat (py_int (of_int mWidth / 2))) (CHR ''.'') @ row) face)
              else Exited [] ''warning: too narrow screen\<newline>''))"

text \<open>
  \<open>unicodedata.east_asian_width\<close> is a table of the Python library; it is a parameter
  of the model. \<open>w in 'FWA'\<close> is a substring test, true for the classes F, W and A and
  false for Na, H and N.
\<close>

datatype ea_width = EA_F | EA_W | EA_A | EA_Na | EA_H | EA_N

definition in_FWA :: "ea_width \<Rightarrow> bool" where
  "in_FWA w = (w = EA_F \<or> w = EA_W \<or> w = EA_A)"

definition countChar :: "(nat \<Rightarrow> ea_width) \<Rightarrow> ustr \<Rightarrow> int" where
  "countChar east_asian_width msg =
     fold (\<lambda>c N. if in_FWA (east_asian_width c) then N + 2 else N + 1) msg 0"

text \<open>The inner loop of the scan: two cells for every leading background column.\<close>

fun leadingDots :: "string \<Rightarrow> int \<Rightarrow> int" where
  "leadingDots [] N = N"
| "leadingDots (color # cs) N = (if color = CHR ''.'' then leadingDots cs (N + 2) else N)"

definition halfUp :: "nat \<Rightarrow> int" where
  "halfUp s = py_int (of_nat s / 2 + 1 / 2)"

definition zigzag :: "int \<Rightarrow> nat \<Rightarrow> int" where
  "zigzag H s = py_int (of_int H / 2) + halfUp s * ((- 1) ^ s)"

function scanRows :: "string list \<Rightarrow> int \<Rightarrow> nat \<Rightarrow> int \<Rightarrow> py_error + int" where
  "scanRows face outN s N =
     (if s < length face then
        (case py_index face (zigzag (int (length face)) s) of
           Inl e \<Rightarrow> Inl e
         | Inr row \<Rightarrow>
             (let N' = leadingDots row N
              in if outN < N' then Inr (py_int (of_int (int (length face)) / 2) - halfUp s)
                 else scanRows face outN (Suc s) N'))
      else Inr 0)"
  by pat_completeness auto
termination
  by (relation "measure (\<lambda>(face, outN, s, N). length face - s)") auto

definition centered :: "int \<Rightarrow> int \<Rightarrow> int" where
  "centered H lineNum =
     (let msgStart2 = py_int (of_int H / 2 - of_int lineNum / 2 + 1 / 2)
      in if msgStart2 < 0 then 0 else msgStart2)"

definition msgStartR :: "(nat \<Rightarrow> ea_width) \<Rightarrow> string list \<Rightarrow> ustr \<Rightarrow> int \<Rightarrow> py_error + int" where
  "msgStartR east_asian_width face msg lineNum =
     (case scanRows face (countChar east_asian_width msg) 0 0 of
        Inl e \<Rightarrow> Inl e
      | Inr msgStart \<Rightarrow>
          (let msgStart2 = centered (int (length face)) lineNum
           in Inr (if msgStart > msgStart2 then msgStart2 else msgStart)))"

definition layoutL :: "string list \<Rightarrow> int \<Rightarrow> string list \<times> int" where
  "layoutL face lineNum =
     (let face' = map rev face;
          msgStart = int (length face') - lineNum;
          msgStart2 = centered (int (length face')) lineNum
      in (face', if msgStart > msgStart2 then msgStart2 else msgStart))"

datatype align = AlignL | AlignR

record render_call =
  r_align :: align
  r_face :: "string list"
  r_width :: int
  r_msg :: ustr
  r_msgStart :: int

text \<open>
  The script from the Sanitizer to the call of the renderer (\<open>outLeft\<close> or \<open>outRight\<close>):
  the raw message, the selected face, the flags and the terminal width go in; the
  arguments of the renderer come out, unless the run ends before.
\<close>

definition techo :: "(nat \<Rightarrow> ea_width) \<Rightarrow> align \<Rightarrow> bool \<Rightarrow> string list \<Rightarrow> int \<Rightarrow> ustr \<Rightarrow> render_call outcome" where
  "techo east_asian_width al showWhole face0' width raw =
     (let msg = sanitize raw;
          lineNum = lineNumOf msg;
          face = faceWindow showWhole face0' lineNum
      in if al = AlignR then
           (case marginR width face of
              Raised e \<Rightarrow> Raised e
            | Exited out err \<Rightarrow> Exited out err
            | Continue face' \<Rightarrow>
                (case msgStartR east_asian_width face' msg lineNum of
                   Inl e \<Rightarrow> Raised e
                 | Inr msgStart \<Rightarrow>
                     Continue \<lparr>r_align = al, r_face = face', r_width = width,
                               r_msg = msg, r_msgStart = msgStart\<rparr>))
         else
           (case layoutL face lineNum of
              (face', msgStart) \<Rightarrow>
                Continue \<lparr>r_align = al, r_face = face', r_width = width,
                          r_msg = msg, r_msgStart = msgStart\<rparr>))"

text \<open>ASCII text as a message, for concrete inputs.\<close>

definition ascii :: "string \<Rightarrow> ustr" where
  "ascii s = map of_char s"

section \<open>Quantities the statements speak about\<close>

text \<open>
  The cells counted for one row by the inner loop of the scan, the row the scan visits
  at step \<open>s\<close>, and the running total after step \<open>s\<close>.
\<close>

definition dotCells :: "string \<Rightarrow> int" where
  "dotCells row = 2 * int (length (takeWhile (\<lambda>c. c = CHR ''.'') row))"

definition rowAt :: "string list \<Rightarrow> nat \<Rightarrow> string" where
  "rowAt face s = face ! nat (zigzag (int (length face)) s)"

primrec runningTotal :: "string list \<Rightarrow> nat \<Rightarrow> int" where
  "runningTotal face 0 = dotCells (rowAt face 0)"
| "runningTotal face (Suc s) = runningTotal face s + dotCells (rowAt face (Suc s))"

definition totalBefore :: "string list \<Rightarrow> nat \<Rightarrow> int" where
  "totalBefore face s = (case s of 0 \<Rightarrow> 0 | Suc t \<Rightarrow> runningTotal face t)"

definition candidateAt :: "string list \<Rightarrow> nat option \<Rightarrow> int" where
  "candidateAt face r =
     (case r of None \<Rightarrow> 0 | Some s \<Rightarrow> int (length face) div 2 - (int s + 1) div 2)"

text \<open>
  The lines of a text, each followed by a newline; a line free of line boundaries and
  control characters; and whether a text ends in an empty line (it is a lone newline or
  ends in two newlines).
\<close>

definition joinLines :: "ustr list \<Rightarrow> ustr" where
  "joinLines ls = concat (map (\<lambda>l. l @ [10]) ls)"

definition cleanLine :: "ustr \<Rightarrow> bool" where
  "cleanLine l = (\<forall>c\<in>set l. \<not> is_linebreak c \<and> \<not> is_ctrl c)"

fun emptyLineFirst :: "ustr \<Rightarrow> bool" where
  "emptyLineFirst [] = False"
| "emptyLineFirst [c] = (c = 10)"
| "emptyLineFirst (c # d # cs) = (c = 10 \<and> d = 10)"

definition endsWithEmptyLine :: "ustr \<Rightarrow> bool" where
  "endsWithEmptyLine s = emptyLineFirst (rev s)"

text \<open>
  A few entries of the East Asian width table: HIRAGANA LETTER A (W), FULLWIDTH LATIN
  CAPITAL LETTER A (F), GREEK SMALL LETTER ALPHA (A), HALFWIDTH KATAKANA LETTER A (H),
  printable ASCII (Na); the rest is taken as neutral, which is right for the ASCII
  control characters.
\<close>

definition sample_width :: "nat \<Rightarrow> ea_width" where
  "sample_width c =
     (if c = 12354 then EA_W
      else if c = 65313 then EA_F
      else if c = 945 then EA_A
      else if c = 65393 then EA_H
      else if 32 \<le> c \<and> c \<le> 126 then EA_Na
      else EA_N)"

text \<open>
  The start row of Right alignment in the words of the specification: the row visited
  at the first step where the running total meets or exceeds the display width of the
  message, or the centred candidate if that is smaller.
\<close>

definition claimed_msgStartR :: "(nat \<Rightarrow> ea_width) \<Rightarrow> string list \<Rightarrow> ustr \<Rightarrow> int \<Rightarrow> int option" where
  "claimed_msgStartR east_asian_width face msg lineNum =
     (case find (\<lambda>s. countChar east_asian_width msg \<le> runningTotal face s) [0..<length face] of
        None \<Rightarrow> None
      | Some s \<Rightarrow>
          Some (min (zigzag (int (length face)) s)
                    (max 0 \<lfloor>(of_int (int (length face)) :: rat) / 2 - of_int lineNum / 2 + 1 / 2\<rfloor>)))"

section \<open>Arithmetic of the Python expressions\<close>

lemma floor_half_rat: "\<lfloor>(of_int n :: rat) / 2\<rfloor> = n div 2"
  using floor_divide_of_int_eq [of n 2, where ?'a = rat] by simp

lemma py_int_half: "0 \<le> n \<Longrightarrow> py_int (of_int n / 2) = n div 2"
  by (simp add: py_int_def floor_half_rat)

lemma py_int_of_int: "py_int (of_int n) = n"
  by (simp add: py_int_def)

lemma py_int_three: "py_int (6 / 2) = 3"
  by (simp add: py_int_def)

lemma halfUp_eq: "halfUp s = (int s + 1) div 2"
proof -
  have "(of_nat s :: rat) / 2 + 1 / 2 = of_int (int s + 1) / 2"
    by (simp add: add_divide_distrib)
  moreover have "(0::rat) \<le> of_int (int s + 1) / 2" by simp
  ultimately show ?thesis
    by (simp only: halfUp_def py_int_def floor_half_rat if_True)
qed

lemma centered_arg: "(of_int H :: rat) / 2 - of_int L / 2 + 1 / 2 = of_int (H - L + 1) / 2"
  by (simp add: add_divide_distrib diff_divide_distrib)

lemma centered_eq: "centered H L = max 0 ((H - L + 1) div 2)"
proof (cases "0 \<le> H - L + 1")
  case True
  then have "(0::rat) \<le> of_int (H - L + 1) / 2" by simp
  then have "py_int (of_int (H - L + 1) / 2) = (H - L + 1) div 2"
    by (simp only: py_int_def floor_half_rat if_True)
  with True show ?thesis
    by (simp add: centered_def centered_arg Let_def)
next
  case False
  then have neg: "(of_int (H - L + 1) :: rat) / 2 < 0"
    by (simp add: divide_neg_pos)
  then have "\<lceil>(of_int (H - L + 1) :: rat) / 2\<rceil> \<le> 0"
    by (simp add: ceiling_le_zero)
  with neg have "py_int (of_int (H - L + 1) / 2) \<le> 0"
    by (simp add: py_int_def)
  moreover from False have "(H - L + 1) div 2 < 0" by simp
  ultimately show ?thesis
    by (auto simp add: centered_def centered_arg Let_def max_def)
qed

lemma centered_floor: "centered H L = max 0 \<lfloor>(of_int H :: rat) / 2 - of_int L / 2 + 1 / 2\<rfloor>"
  by (simp only: centered_eq centered_arg floor_half_rat)

lemma zigzag_eq: "0 \<le> H \<Longrightarrow> zigzag H s = H div 2 + ((int s + 1) div 2) * (- 1) ^ s"
  by (simp add: zigzag_def py_int_half halfUp_eq)

lemma zigzag_even: "0 \<le> H \<Longrightarrow> even s \<Longrightarrow> zigzag H s = H div 2 + int s div 2"
  by (auto simp add: zigzag_eq elim!: evenE)

lemma zigzag_odd: "0 \<le> H \<Longrightarrow> odd s \<Longrightarrow> zigzag H s = H div 2 - (int s + 1) div 2"
  by (auto simp add: zigzag_eq elim!: oddE)

lemma zigzag_bounds:
  assumes "int s < H"
  shows "0 \<le> zigzag H s \<and> zigzag H s < H"
proof (cases "even s")
  case True
  with assms show ?thesis by (simp add: zigzag_even)
next
  case False
  with assms show ?thesis by (simp add: zigzag_odd) presburger
qed

lemma candidate_nonneg: "int s < H \<Longrightarrow> 0 \<le> py_int (of_int H / 2) - halfUp s"
  by (simp add: py_int_half halfUp_eq)

section \<open>Display width\<close>

lemma countChar_fold:
  "fold (\<lambda>c N. if in_FWA (w c) then N + 2 else N + 1) s (N0::int) =
   N0 + (\<Sum>c\<leftarrow>s. if in_FWA (w c) then 2 else 1)"
  by (induction s arbitrary: N0) simp_all

lemma countChar_sum: "countChar w s = (\<Sum>c\<leftarrow>s. if in_FWA (w c) then 2 else 1)"
  by (simp add: countChar_def countChar_fold)

lemma countChar_append: "countChar w (s @ t) = countChar w s + countChar w t"
  by (simp add: countChar_sum)

lemma countChar_replicate: "countChar w (replicate n c) = int n * (if in_FWA (w c) then 2 else 1)"
  by (simp add: countChar_sum sum_list_replicate)

section \<open>The zig-zag scan\<close>

lemma py_int_half_nat: "py_int (of_nat n / 2) = int n div 2"
  using py_int_half [of "int n"] by simp

lemma leadingDots_eq: "leadingDots row N = N + dotCells row"
  by (induction row arbitrary: N) (simp_all add: dotCells_def)

lemma py_index_zigzag:
  assumes "s < length face"
  shows "py_index face (zigzag (int (length face)) s) = Inr (rowAt face s)"
proof -
  from assms have "int s < int (length face)" by simp
  from zigzag_bounds [OF this] show ?thesis
    by (simp add: py_index_def rowAt_def Let_def)
qed

lemma totalBefore_step: "totalBefore face s + dotCells (rowAt face s) = runningTotal face s"
  by (cases s) (simp_all add: totalBefore_def)

lemma scanRows_find:
  "s \<le> length face \<Longrightarrow> N = totalBefore face s \<Longrightarrow>
   scanRows face outN s N =
     Inr (candidateAt face (find (\<lambda>t. outN < runningTotal face t) [s..<length face]))"
proof (induction face outN s N rule: scanRows.induct)
  case (1 face outN s N)
  show ?case
  proof (cases "s < length face")
    case False
    with "1.prems" have "s = length face" by simp
    then show ?thesis
      by (subst scanRows.simps) (simp add: candidateAt_def)
  next
    case True
    let ?N' = "leadingDots (rowAt face s) N"
    have N': "?N' = runningTotal face s"
      using "1.prems" by (simp add: leadingDots_eq totalBefore_step)
    have upt: "[s..<length face] = s # [Suc s..<length face]"
      using True by (simp add: upt_conv_Cons)
    show ?thesis
    proof (cases "outN < ?N'")
      case yes: True
      have "scanRows face outN s N = Inr (py_int (of_int (int (length face)) / 2) - halfUp s)"
        using True yes by (subst scanRows.simps) (simp add: py_index_zigzag Let_def)
      also have "\<dots> = Inr (candidateAt face (Some s))"
        by (simp add: candidateAt_def py_int_half_nat halfUp_eq)
      finally show ?thesis
        using yes by (simp add: upt N')
    next
      case no: False
      have "scanRows face outN s N = scanRows face outN (Suc s) ?N'"
        using True no by (subst scanRows.simps) (simp add: py_index_zigzag Let_def)
      also have "\<dots> = Inr (candidateAt face (find (\<lambda>t. outN < runningTotal face t) [Suc s..<length face]))"
      proof (rule "1.IH" [OF True _ refl _])
        show "py_index face (zigzag (int (length face)) s) = Inr (rowAt face s)"
          using True by (rule py_index_zigzag)
        show "\<not> outN < ?N'" by (rule no)
        show "Suc s \<le> length face" using True by simp
        show "?N' = totalBefore face (Suc s)" by (simp add: N' totalBefore_def)
      qed
      finally show ?thesis
        using no by (simp add: upt N')
    qed
  qed
qed

lemma candidateAt_nonneg:
  assumes "r = None \<or> (\<exists>s. r = Some s \<and> s < length face)"
  shows "0 \<le> candidateAt face r"
  using assms by (auto simp add: candidateAt_def)

lemma find_upt_lt: "find P [a..<b] = Some s \<Longrightarrow> s < b"
  by (auto simp add: find_Some_iff)

lemma scanRows_total: "\<exists>r. scanRows face outN 0 0 = Inr r \<and> 0 \<le> r"
proof -
  let ?f = "find (\<lambda>t. outN < runningTotal face t) [0..<length face]"
  have "scanRows face outN 0 0 = Inr (candidateAt face ?f)"
    by (rule scanRows_find) (simp_all add: totalBefore_def)
  moreover have "0 \<le> candidateAt face ?f"
    by (rule candidateAt_nonneg) (cases ?f; simp add: find_upt_lt)
  ultimately show ?thesis by blast
qed

text \<open>
  C10. At every step \<open>s\<close> below the height of the visible face, the row index
  \<open>int(H/2) + int(s/2 + 0.5) * (-1)^s\<close> lies in \<open>[0, H)\<close>, the row lookup returns
  that row without raising, the start row assigned at that step is not negative, and
  the scan as a whole returns a start-row candidate that is not negative.
\<close>

theorem scan_rows_in_bounds:
  assumes "s < length face"
  shows "0 \<le> zigzag (int (length face)) s \<and>
         zigzag (int (length face)) s < int (length face) \<and>
         py_index face (zigzag (int (length face)) s) =
           Inr (face ! nat (zigzag (int (length face)) s)) \<and>
         0 \<le> py_int (of_int (int (length face)) / 2) - halfUp s \<and>
         (\<exists>r. scanRows face outN 0 0 = Inr r \<and> 0 \<le> r)"
proof -
  from assms have lt: "int s < int (length face)" by simp
  note zigzag_bounds [OF lt]
  moreover have "py_index face (zigzag (int (length face)) s) =
      Inr (face ! nat (zigzag (int (length face)) s))"
    using py_index_zigzag [OF assms] by (simp add: rowAt_def)
  moreover note candidate_nonneg [OF lt]
  moreover note scanRows_total [of face outN]
  ultimately show ?thesis by blast
qed

lemma face0_length: "length face0 = 28"
  by (simp add: face0_def)

theorem scan_rows_in_bounds_witness:
  "(27::nat) < length face0 \<and> zigzag (int (length face0)) 27 = 0 \<and>
   py_index face0 (zigzag (int (length face0)) 27) = Inr (face0 ! 0)"
proof -
  have h: "(27::nat) < length face0" by (simp add: face0_length)
  have z: "zigzag (int (length face0)) 27 = 0"
    by (simp add: face0_length zigzag_odd)
  from scan_rows_in_bounds [OF h] z h show ?thesis by simp
qed

text \<open>
  C1, as the code has it. In Right alignment the start-row candidate is
  \<open>H div 2 - (s + 1) div 2\<close>, where \<open>s\<close> is the first step of the zig-zag scan at which the
  running total of leading background columns, two cells each, strictly exceeds the
  display width of the message, and 0 when no step does; the start row is the smaller
  of this candidate and \<open>max(0, floor(H/2 - L/2 + 0.5))\<close>.
\<close>

theorem msgStartR_first_exceed:
  "msgStartR w face msg L =
     Inr (min (case find (\<lambda>s. countChar w msg < runningTotal face s) [0..<length face] of
                 None \<Rightarrow> 0
               | Some s \<Rightarrow> int (length face) div 2 - (int s + 1) div 2)
              (max 0 \<lfloor>(of_int (int (length face)) :: rat) / 2 - of_int L / 2 + 1 / 2\<rfloor>))"
proof -
  define c where "c = candidateAt face (find (\<lambda>t. countChar w msg < runningTotal face t) [0..<length face])"
  define m where "m = centered (int (length face)) L"
  have "scanRows face (countChar w msg) 0 0 = Inr c"
    unfolding c_def by (rule scanRows_find) (simp_all add: totalBefore_def)
  then have "msgStartR w face msg L = Inr (if c > m then m else c)"
    by (simp only: msgStartR_def m_def Let_def sum.case)
  also have "(if c > m then m else c) = min c m"
    by (simp add: min_def)
  finally show ?thesis
    unfolding c_def m_def candidateAt_def centered_floor .
qed

lemma dotCells_replicate:
  "dotCells (replicate n (CHR ''.'') @ row) = 2 * int n + dotCells row"
  by (induction n) (simp_all add: dotCells_def)

lemma wide_face0_length: "length (map (append (replicate 15 (CHR ''.''))) face0) = 28"
  by (simp add: face0_length)

lemma wide_face0_totals:
  "runningTotal (map (append (replicate 15 (CHR ''.''))) face0) 0 = 36"
  "runningTotal (map (append (replicate 15 (CHR ''.''))) face0) (Suc 0) = 72"
  "runningTotal (map (append (replicate 15 (CHR ''.''))) face0) (Suc (Suc 0)) = 110"
  by (simp_all add: rowAt_def face0_length zigzag_eq dotCells_replicate face0_def, simp_all add: dotCells_def)

lemma countChar_a80: "countChar sample_width (replicate 80 97 @ [10]) = 81"
  by (simp add: countChar_append countChar_replicate, simp add: countChar_def sample_width_def in_FWA_def)


lemma find_upt_step:
  "a < b \<Longrightarrow> find P [a..<b] = (if P a then Some a else find P [Suc a..<b])"
  by (simp add: upt_conv_Cons)

lemma wide_face0_first_exceed:
  "find (\<lambda>t. 81 < runningTotal (map (append (replicate 15 (CHR ''.''))) face0) t)
     [0..<length (map (append (replicate 15 (CHR ''.''))) face0)] = Some 2"
  by (simp only: wide_face0_length)
     (simp add: find_upt_step wide_face0_totals numeral_2_eq_2 del: runningTotal.simps)

lemma wide_face0_first_meet:
  "find (\<lambda>t. 81 \<le> runningTotal (map (append (replicate 15 (CHR ''.''))) face0) t)
     [0..<length (map (append (replicate 15 (CHR ''.''))) face0)] = Some 2"
  by (simp only: wide_face0_length)
     (simp add: find_upt_step wide_face0_totals numeral_2_eq_2 del: runningTotal.simps)

text \<open>
  C1 as the specification words it fails on face 0 at 80 columns with a message of 80
  narrow characters: the running total first exceeds (and first meets) the width 81 at
  step 2, on row 15; the code assigns row 13 and starts there, the specification's
  wording gives 14.
\<close>

theorem msgStartR_not_first_meeting_row:
  "msgStartR sample_width (map (append (replicate 15 (CHR ''.''))) face0)
     (replicate 80 97 @ [10]) 1 = Inr 13 \<and>
   claimed_msgStartR sample_width (map (append (replicate 15 (CHR ''.''))) face0)
     (replicate 80 97 @ [10]) 1 = Some 14"
proof
  let ?F = "map (append (replicate 15 (CHR ''.''))) face0"
  have "scanRows ?F 81 0 0 =
      Inr (candidateAt ?F (find (\<lambda>t. 81 < runningTotal ?F t) [0..<length ?F]))"
    by (rule scanRows_find) (simp_all add: totalBefore_def)
  also have "\<dots> = Inr 13"
    by (simp only: wide_face0_first_exceed) (simp add: candidateAt_def face0_length)
  finally have scan: "scanRows ?F 81 0 0 = Inr 13" .
  have "centered (int (length ?F)) 1 = 14"
    by (simp add: centered_eq face0_length)
  with scan show "msgStartR sample_width ?F (replicate 80 97 @ [10]) 1 = Inr 13"
    by (simp add: msgStartR_def countChar_a80)
next
  let ?F = "map (append (replicate 15 (CHR ''.''))) face0"
  have z: "zigzag (int (length ?F)) 2 = 15"
    by (simp add: zigzag_eq face0_length)
  have c: "\<lfloor>(of_int (int (length ?F)) :: rat) / 2 - of_int 1 / 2 + 1 / 2\<rfloor> = 14"
    by (simp add: face0_length)
  show "claimed_msgStartR sample_width ?F (replicate 80 97 @ [10]) 1 = Some 14"
    unfolding claimed_msgStartR_def countChar_a80
    by (simp only: wide_face0_first_meet option.case z) (simp add: face0_length)
qed

section \<open>The window of the Face Selector\<close>

lemma py_int_3: "py_int 3 = 3"
  by (simp add: py_int_def)

lemma half_bounds: "2 * ((n::int) div 2) \<le> n \<and> n \<le> 2 * (n div 2) + 1"
  by presburger

lemma windowBounds_eq:
  assumes "0 \<le> H" "0 \<le> L"
  shows "windowBounds H L =
     (if L < 6 then (H div 2 - 1, H div 2 + 5)
      else if L + 2 < H then (H div 2 - L div 2 + 1, H div 2 - L div 2 + L + 2)
      else (0, H))"
  using assms by (simp add: windowBounds_def py_int_half py_int_3 Let_def)

lemma py_slice_inside:
  assumes "0 \<le> a" "a \<le> b" "a \<le> int (length xs)"
  shows "py_slice xs a b = take (nat (b - a)) (drop (nat a) xs)"
proof (cases "b \<le> int (length xs)")
  case True
  with assms show ?thesis
    by (simp add: py_slice_def slice_bound_def Let_def)
next
  case False
  with assms have "py_slice xs a b = take (nat (int (length xs) - a)) (drop (nat a) xs)"
    by (simp add: py_slice_def slice_bound_def Let_def min_def)
  also have "\<dots> = drop (nat a) xs" using assms by simp
  also have "\<dots> = take (nat (b - a)) (drop (nat a) xs)"
    using False assms by simp
  finally show ?thesis .
qed

lemma py_slice_whole: "py_slice xs 0 (int (length xs)) = xs"
  by (simp add: py_slice_def slice_bound_def Let_def)

text \<open>
  C3, as the code has it. For every line count \<open>L >= 1\<close> and every height \<open>H >= 9\<close> the
  window start lies in \<open>[0, H]\<close> and is not above the window end, and the window end is
  at most \<open>H + 1\<close>; it is above \<open>H\<close> exactly when \<open>H\<close> is even and \<open>L = H - 3 >= 6\<close>.
  The slice taken from a bitmap of that height holds the rows from the start up to the
  smaller of the end and \<open>H\<close>: where the end is above \<open>H\<close>, the slice stops at the last
  row.
\<close>

theorem windowBounds_range:
  assumes "1 \<le> L" "9 \<le> H"
  shows "0 \<le> fst (windowBounds H L) \<and>
         fst (windowBounds H L) \<le> snd (windowBounds H L) \<and>
         fst (windowBounds H L) \<le> H \<and>
         snd (windowBounds H L) \<le> H + 1 \<and>
         (snd (windowBounds H L) \<le> H) = (\<not> (even H \<and> 6 \<le> L \<and> L = H - 3)) \<and>
         (\<forall>face. int (length face) = H \<longrightarrow>
            faceWindow False face L =
              take (nat (min (snd (windowBounds H L)) H - fst (windowBounds H L)))
                (drop (nat (fst (windowBounds H L))) face) \<and>
            (H < snd (windowBounds H L) \<longrightarrow>
               faceWindow False face L = drop (nat (fst (windowBounds H L))) face))"
proof -
  from assms have eq: "windowBounds H L =
     (if L < 6 then (H div 2 - 1, H div 2 + 5)
      else if L + 2 < H then (H div 2 - L div 2 + 1, H div 2 - L div 2 + L + 2)
      else (0, H))"
    by (intro windowBounds_eq) simp_all
  define h where "h = H div 2"
  define l where "l = L div 2"
  have hb: "2 * h \<le> H" "H \<le> 2 * h + 1" and lb: "2 * l \<le> L" "L \<le> 2 * l + 1"
    using half_bounds [of H] half_bounds [of L] by (simp_all add: h_def l_def)
  have ev: "even H = (H = 2 * h)"
    unfolding h_def by presburger
  consider (small) "L < 6" | (mid) "6 \<le> L" "L + 2 < H" | (big) "6 \<le> L" "\<not> L + 2 < H"
    by linarith
  then have idx: "0 \<le> fst (windowBounds H L) \<and>
         fst (windowBounds H L) \<le> snd (windowBounds H L) \<and>
         fst (windowBounds H L) \<le> H \<and>
         snd (windowBounds H L) \<le> H + 1 \<and>
         (snd (windowBounds H L) \<le> H) = (\<not> (even H \<and> 6 \<le> L \<and> L = H - 3))"
  proof cases
    case small
    with assms hb show ?thesis
      unfolding eq h_def [symmetric] by simp
  next
    case mid
    with assms hb lb show ?thesis
      unfolding eq h_def [symmetric] l_def [symmetric] ev by simp linarith
  next
    case big
    with assms show ?thesis unfolding eq by simp
  qed
  define ys where "ys = fst (windowBounds H L)"
  define ye where "ye = snd (windowBounds H L)"
  have slice: "faceWindow False face L = take (nat (min ye H - ys)) (drop (nat ys) face) \<and>
      (H < ye \<longrightarrow> faceWindow False face L = drop (nat ys) face)"
    if len: "int (length face) = H" for face :: "string list"
  proof -
    from idx have b: "0 \<le> ys" "ys \<le> ye" "ys \<le> int (length face)"
      by (simp_all add: ys_def ye_def len)
    have "windowBounds (int (length face)) L = (ys, ye)"
      by (simp add: len ys_def ye_def)
    then have "faceWindow False face L = py_slice face ys ye"
      by (simp add: faceWindow_def)
    also have "\<dots> = take (nat (ye - ys)) (drop (nat ys) face)"
      using b by (rule py_slice_inside)
    finally have fw: "faceWindow False face L = take (nat (ye - ys)) (drop (nat ys) face)" .
    show ?thesis
    proof (cases "ye \<le> H")
      case True
      then show ?thesis by (simp add: fw min_def)
    next
      case False
      then have "length (drop (nat ys) face) \<le> nat (ye - ys)"
        using b len by simp
      then have "take (nat (ye - ys)) (drop (nat ys) face) = drop (nat ys) face"
        by (rule take_all)
      moreover have "length (drop (nat ys) face) \<le> nat (H - ys)"
        using b len by simp
      then have "take (nat (H - ys)) (drop (nat ys) face) = drop (nat ys) face"
        by (rule take_all)
      ultimately show ?thesis
        using False by (simp add: fw min_def)
    qed
  qed
  from idx slice show ?thesis
    unfolding ys_def ye_def by blast
qed

theorem windowBounds_range_witness:
  "(1::int) \<le> 25 \<and> (9::int) \<le> 28 \<and> int (length face0) = 28 \<and>
   windowBounds 28 25 = (3, 29) \<and> faceWindow False face0 25 = drop 3 face0"
proof -
  have h1: "(1::int) \<le> 25" and h2: "(9::int) \<le> 28" by simp_all
  have len: "int (length face0) = 28" by (simp add: face0_length)
  have wb: "windowBounds 28 25 = (3, 29)"
    by (simp add: windowBounds_eq)
  from windowBounds_range [OF h1 h2]
  have "int (length face0) = 28 \<longrightarrow>
      ((28::int) < snd (windowBounds 28 25) \<longrightarrow>
        faceWindow False face0 25 = drop (nat (fst (windowBounds 28 25))) face0)"
    by blast
  with len wb show ?thesis by simp
qed

text \<open>
  C3 fails on the faces of the program (28 rows) for a message of 25 lines: the window
  end is 29.
\<close>

theorem windowBounds_past_end: "snd (windowBounds 28 25) = 29 \<and> \<not> snd (windowBounds 28 25) \<le> 28"
  by (simp add: windowBounds_eq)

lemma length_take_drop:
  assumes "int a + int k \<le> int (length xs)"
  shows "length (take k (drop a xs)) = k"
  using assms by simp

lemma length_take_drop_short:
  assumes "int a \<le> int (length xs)" "int (length xs) \<le> int a + int k"
  shows "int (length (take k (drop a xs))) = int (length xs) - int a"
  using assms by simp

lemma window_small:
  assumes "9 \<le> length face" "L < 6"
  shows "faceWindow False face L = take 6 (drop (nat (int (length face) div 2 - 3 + 2)) face)"
    and "int (length (faceWindow False face L)) = 6"
proof -
  define H where "H = int (length face)"
  define h where "h = H div 2"
  have hb: "2 * h \<le> H" "H \<le> 2 * h + 1"
    using half_bounds [of H] by (simp_all add: h_def)
  have H9: "9 \<le> H" using assms by (simp add: H_def)
  have h4: "4 \<le> h" using hb H9 by linarith
  have h5: "h + 5 \<le> H" using hb H9 h4 by linarith
  have wb: "windowBounds H L = (h - 1, h - 1 + 6)"
    using assms H9 by (simp add: windowBounds_def py_int_half py_int_3 Let_def h_def)
  have "py_slice face (h - 1) (h - 1 + 6) = take (nat (h - 1 + 6 - (h - 1))) (drop (nat (h - 1)) face)"
    using h4 h5 by (intro py_slice_inside) (simp_all add: H_def [symmetric])
  then have ps: "py_slice face (h - 1) (h - 1 + 6) = take 6 (drop (nat (h - 1)) face)"
    by simp
  have w: "faceWindow False face L = take 6 (drop (nat (h - 1)) face)"
    by (simp only: faceWindow_def H_def [symmetric] wb if_False prod.case ps)
  then show "faceWindow False face L = take 6 (drop (nat (int (length face) div 2 - 3 + 2)) face)"
    by (simp add: h_def H_def)
  have "int (nat (h - 1)) + int 6 \<le> int (length face)"
    using h4 h5 by (simp add: H_def [symmetric])
  then have "length (take 6 (drop (nat (h - 1)) face)) = 6"
    by (rule length_take_drop)
  with w show "int (length (faceWindow False face L)) = 6" by simp
qed


lemma window_mid:
  assumes "6 \<le> L" "L + 2 < int (length face)"
  shows "faceWindow False face L =
           take (nat (L + 1)) (drop (nat (int (length face) div 2 - L div 2 + 1)) face)"
    and "int (length (faceWindow False face L)) =
           (if even (length face) \<and> L = int (length face) - 3 then L else L + 1)"
proof -
  define H where "H = int (length face)"
  define h where "h = H div 2"
  define l where "l = L div 2"
  define a where "a = h - l + 1"
  have hb: "2 * h \<le> H" "H \<le> 2 * h + 1" and lb: "2 * l \<le> L" "L \<le> 2 * l + 1"
    using half_bounds [of H] half_bounds [of L] by (simp_all add: h_def l_def)
  have LH: "L + 2 < H" using assms by (simp add: H_def)
  have a0: "0 \<le> a" and aH: "a \<le> H" and ab: "a \<le> a + L + 1"
    using hb lb LH assms(1) by (simp_all add: a_def)
  have wb: "windowBounds H L = (a, a + L + 1)"
    using assms LH by (simp add: windowBounds_def py_int_half Let_def h_def l_def a_def)
  have "py_slice face a (a + L + 1) = take (nat (a + L + 1 - a)) (drop (nat a) face)"
    using a0 ab aH by (intro py_slice_inside) (simp_all add: H_def [symmetric])
  then have ps: "py_slice face a (a + L + 1) = take (nat (L + 1)) (drop (nat a) face)"
    by simp
  have w: "faceWindow False face L = take (nat (L + 1)) (drop (nat a) face)"
    by (simp only: faceWindow_def H_def [symmetric] wb if_False prod.case ps)
  then show "faceWindow False face L =
      take (nat (L + 1)) (drop (nat (int (length face) div 2 - L div 2 + 1)) face)"
    by (simp add: a_def h_def l_def H_def)
  have ev: "even (length face) = (H = 2 * h)"
    unfolding h_def H_def by presburger
  have na: "int (nat a) = a" and nl: "int (nat (L + 1)) = L + 1"
    using a0 assms(1) by simp_all
  show "int (length (faceWindow False face L)) =
      (if even (length face) \<and> L = int (length face) - 3 then L else L + 1)"
  proof (cases "H = 2 * h \<and> L = H - 3")
    case True
    have "h - l + 1 + (L + 1) = H + 1"
      using True lb by presburger
    then have "a + (L + 1) = H + 1" by (simp add: a_def)
    then have "int (nat a) \<le> int (length face)" "int (length face) \<le> int (nat a) + int (nat (L + 1))"
      using aH by (simp_all only: na nl H_def [symmetric])
    then have "int (length (take (nat (L + 1)) (drop (nat a) face))) = int (length face) - int (nat a)"
      by (rule length_take_drop_short)
    also have "\<dots> = H - a"
      by (simp only: na H_def [symmetric])
    also have "\<dots> = L"
      using \<open>a + (L + 1) = H + 1\<close> by simp
    finally have "int (length (faceWindow False face L)) = L"
      by (simp only: w)
    then show ?thesis
      using True by (simp only: ev H_def [symmetric]) simp
  next
    case False
    have "h - l + 1 + (L + 1) \<le> H"
      using False hb lb LH by presburger
    then have "a + (L + 1) \<le> H" by (simp add: a_def)
    then have "int (nat a) + int (nat (L + 1)) \<le> int (length face)"
      by (simp only: na nl H_def [symmetric])
    then have "length (take (nat (L + 1)) (drop (nat a) face)) = nat (L + 1)"
      by (rule length_take_drop)
    then have "int (length (faceWindow False face L)) = L + 1"
      by (simp only: w nl)
    then show ?thesis
      using False by (simp only: ev H_def [symmetric]) simp
  qed
qed

lemma window_whole:
  assumes "6 \<le> L" "\<not> L + 2 < int (length face)"
  shows "faceWindow False face L = face"
  using assms by (simp add: faceWindow_def windowBounds_def py_slice_whole)


text \<open>
  C2, as the code has it. For every line count \<open>L >= 1\<close> and every bitmap of height
  \<open>H >= 9\<close>, the window of reduced mode is: the 6 rows \<open>[H/2 - 3 + 2, H/2 - 3 + 2 + 6)\<close>
  when \<open>L < 6\<close>; the rows from \<open>H/2 - L/2 + 1\<close> on, \<open>L + 1\<close> of them, when \<open>6 <= L\<close> and
  \<open>L + 2 < H\<close>, except that only \<open>L\<close> rows are left before the end of the bitmap when
  \<open>H\<close> is even and \<open>L = H - 3\<close>; the whole bitmap otherwise.
\<close>

theorem faceWindow_rows:
  assumes "1 \<le> L" "9 \<le> length face"
  shows "faceWindow False face L =
           (if L < 6 then take 6 (drop (nat (int (length face) div 2 - 3 + 2)) face)
            else if L + 2 < int (length face)
            then take (nat (L + 1)) (drop (nat (int (length face) div 2 - L div 2 + 1)) face)
            else face) \<and>
         int (length (faceWindow False face L)) =
           (if L < 6 then 6
            else if L + 2 < int (length face)
            then (if even (length face) \<and> L = int (length face) - 3 then L else L + 1)
            else int (length face))"
proof -
  consider (small) "L < 6" | (mid) "6 \<le> L" "L + 2 < int (length face)"
    | (big) "6 \<le> L" "\<not> L + 2 < int (length face)"
    by linarith
  then show ?thesis
  proof cases
    case small
    with window_small [OF assms(2) small] show ?thesis
      by (simp only: if_True simp_thms)
  next
    case mid
    then have "\<not> L < 6" by simp
    with mid(2) window_mid [OF mid] show ?thesis
      by (simp only: if_True if_False simp_thms)
  next
    case big
    then have "\<not> L < 6" by simp
    with big(2) window_whole [OF big] show ?thesis
      by (simp only: if_False simp_thms)
  qed
qed

theorem faceWindow_rows_witness:
  "(1::int) \<le> 20 \<and> 9 \<le> length face0 \<and>
   faceWindow False face0 20 = take 21 (drop 5 face0) \<and>
   length (faceWindow False face0 20) = 21"
proof -
  have h1: "(1::int) \<le> 20" and h2: "9 \<le> length face0" by (simp_all add: face0_length)
  from faceWindow_rows [OF h1 h2] show ?thesis
    by (simp add: face0_length)
qed

text \<open>
  C2 fails on face 0 (28 rows) for a message of 25 lines: the window has 25 rows, not 26.
\<close>

theorem faceWindow_25_lines:
  "length (faceWindow False face0 25) = 25 \<and> faceWindow False face0 25 = drop 3 face0"
  using window_mid [of 25 face0] by (simp add: face0_length)

section \<open>Display width of every string\<close>

lemma countChar_narrow: "\<forall>c\<in>set s. \<not> in_FWA (w c) \<Longrightarrow> countChar w s = int (length s)"
  by (induction s) (simp_all add: countChar_sum)

lemma countChar_wide: "\<forall>c\<in>set s. in_FWA (w c) \<Longrightarrow> countChar w s = 2 * int (length s)"
  by (induction s) (simp_all add: countChar_sum)

text \<open>
  C8. With a width table that puts no ASCII character in the classes F, W, A (as the
  Unicode table does), \<open>countChar\<close> returns \<open>N\<close> for every ASCII string of length \<open>N\<close>;
  it returns \<open>2N\<close> for every string of \<open>N\<close> Fullwidth or Wide characters; and for every
  string it returns the sum over the characters of 2 for the classes F, W, A and 1
  otherwise.
\<close>

theorem countChar_widths:
  "((\<forall>c. c < 128 \<longrightarrow> \<not> in_FWA (w c)) \<and> (\<forall>c\<in>set s1. c < 128) \<longrightarrow>
      countChar w s1 = int (length s1)) \<and>
   ((\<forall>c\<in>set s2. w c = EA_F \<or> w c = EA_W) \<longrightarrow> countChar w s2 = 2 * int (length s2)) \<and>
   countChar w s3 = (\<Sum>c\<leftarrow>s3. if w c = EA_F \<or> w c = EA_W \<or> w c = EA_A then 2 else 1)"
proof (intro conjI impI)
  assume a: "(\<forall>c. c < 128 \<longrightarrow> \<not> in_FWA (w c)) \<and> (\<forall>c\<in>set s1. c < 128)"
  then have "\<forall>c\<in>set s1. \<not> in_FWA (w c)" by blast
  then show "countChar w s1 = int (length s1)"
    by (rule countChar_narrow)
next
  assume "\<forall>c\<in>set s2. w c = EA_F \<or> w c = EA_W"
  then have "\<forall>c\<in>set s2. in_FWA (w c)" by (auto simp add: in_FWA_def)
  then show "countChar w s2 = 2 * int (length s2)"
    by (rule countChar_wide)
next
  show "countChar w s3 = (\<Sum>c\<leftarrow>s3. if w c = EA_F \<or> w c = EA_W \<or> w c = EA_A then 2 else 1)"
    by (simp add: countChar_sum in_FWA_def)
qed

lemma sample_width_ascii: "\<forall>c. c < 128 \<longrightarrow> \<not> in_FWA (sample_width c)"
  by (simp add: sample_width_def in_FWA_def)

theorem countChar_widths_witness:
  "countChar sample_width [104, 105] = 2 \<and>
   countChar sample_width [12354, 65313] = 4 \<and>
   countChar sample_width [104, 12354, 945, 65393] = 6"
proof -
  have h1: "(\<forall>c. c < 128 \<longrightarrow> \<not> in_FWA (sample_width c)) \<and> (\<forall>c\<in>set [104, 105]. c < (128::nat))"
    using sample_width_ascii by simp
  have h2: "\<forall>c\<in>set [12354, 65313]. sample_width c = EA_F \<or> sample_width c = EA_W"
    by (simp add: sample_width_def)
  from countChar_widths [of sample_width "[104, 105]" "[12354, 65313]" "[104, 12354, 945, 65393]"]
  have "countChar sample_width [104, 105] = int (length [104, 105::nat])"
    and "countChar sample_width [12354, 65313] = 2 * int (length [12354, 65313::nat])"
    and "countChar sample_width [104, 12354, 945, 65393] =
      (\<Sum>c\<leftarrow>[104, 12354, 945, 65393]. if sample_width c = EA_F \<or> sample_width c = EA_W \<or> sample_width c = EA_A then 2 else 1)"
    using h1 h2 by blast+
  then show ?thesis
    by (simp add: sample_width_def)
qed

section \<open>The palette\<close>

text \<open>
  C6, as the code has it. The palette is an ordered sequence of exactly 9 colours of
  six hexadecimal digits, which \<open>hexToRGB\<close> reads as three components below 256; the
  indices 0 to 8 are valid and 9 is out of range.
\<close>

theorem palette_nine_colours:
  "length palette = 9 \<and>
   map hexToRGB palette =
     [Inr (45, 39, 42), Inr (255, 0, 38), Inr (204, 0, 30), Inr (179, 0, 26),
      Inr (238, 14, 70), Inr (246, 205, 203), Inr (247, 156, 161), Inr (146, 91, 110),
      Inr (118, 68, 95)] \<and>
   py_index palette 0 = Inr ''2d272a'' \<and>
   py_index palette 8 = Inr ''76445f'' \<and>
   py_index palette 9 = Inl IndexError"
  by (simp add: palette_def hexToRGB_def py_slice_def slice_bound_def int16_def hexDigit_def
      py_index_def)

text \<open>C6 fails as stated: the palette does not have 10 entries.\<close>

theorem palette_not_ten: "length palette \<noteq> 10"
  by (simp add: palette_def)

section \<open>Left alignment\<close>

text \<open>
  C4, as the code has it. In Left alignment every row of the visible face is reversed,
  and the start row is the smaller of \<open>H - L\<close> (not clamped) and
  \<open>max(0, floor(H/2 - L/2 + 0.5))\<close>; it is non-negative exactly when \<open>L <= H\<close>. The
  reversed rows and this start row are what the renderer is called with.
\<close>

theorem layoutL_start:
  "layoutL face L =
     (map rev face,
      min (int (length face) - L)
          (max 0 \<lfloor>(of_int (int (length face)) :: rat) / 2 - of_int L / 2 + 1 / 2\<rfloor>)) \<and>
   (0 \<le> snd (layoutL face L)) = (L \<le> int (length face)) \<and>
   techo w AlignL showWhole bitmap width raw =
     Continue \<lparr>r_align = AlignL,
               r_face = fst (layoutL (faceWindow showWhole bitmap (lineNumOf (sanitize raw)))
                              (lineNumOf (sanitize raw))),
               r_width = width, r_msg = sanitize raw,
               r_msgStart = snd (layoutL (faceWindow showWhole bitmap (lineNumOf (sanitize raw)))
                                  (lineNumOf (sanitize raw)))\<rparr>"
proof -
  define m where "m = centered (int (length face)) L"
  have m0: "0 \<le> m" by (simp add: m_def centered_eq)
  have "layoutL face L =
      (map rev face, if int (length face) - L > m then m else int (length face) - L)"
    by (simp add: layoutL_def Let_def m_def)
  also have "(if int (length face) - L > m then m else int (length face) - L) =
      min (int (length face) - L) m"
    by (simp add: min_def)
  finally have eq: "layoutL face L = (map rev face, min (int (length face) - L) m)" .
  have "(0 \<le> min (int (length face) - L) m) = (L \<le> int (length face))"
    using m0 by (simp add: min_def)
  moreover have "techo w AlignL showWhole bitmap width raw =
     Continue \<lparr>r_align = AlignL,
               r_face = fst (layoutL (faceWindow showWhole bitmap (lineNumOf (sanitize raw)))
                              (lineNumOf (sanitize raw))),
               r_width = width, r_msg = sanitize raw,
               r_msgStart = snd (layoutL (faceWindow showWhole bitmap (lineNumOf (sanitize raw)))
                                  (lineNumOf (sanitize raw)))\<rparr>"
    by (simp add: techo_def Let_def split: prod.splits)
  ultimately show ?thesis
    using eq unfolding m_def centered_floor by simp
qed

text \<open>
  C4 fails on face 0 (28 rows, whole mode) for a message of 30 lines: the start row is
  \<open>-2\<close>, where the specification's wording gives 0.
\<close>

theorem layoutL_negative_start:
  "snd (layoutL face0 30) = - 2 \<and> min (max 0 (int (length face0) - 30)) (centered (int (length face0)) 30) = 0"
  by (simp add: layoutL_def face0_length centered_eq Let_def)

section \<open>The margin of Right alignment\<close>

text \<open>A bitmap of at least 9 rows, as all six faces are, always has a visible row.\<close>

lemma faceWindow_nonempty:
  assumes "9 \<le> length face"
  shows "faceWindow showWhole face L \<noteq> []"
proof (cases showWhole)
  case True
  with assms show ?thesis by (auto simp add: faceWindow_def)
next
  case False
  consider (small) "L < 6" | (mid) "6 \<le> L" "L + 2 < int (length face)"
    | (big) "6 \<le> L" "\<not> L + 2 < int (length face)"
    by linarith
  then have "0 < int (length (faceWindow False face L))"
  proof cases
    case small
    with window_small(2) [OF assms small] show ?thesis by simp
  next
    case mid
    with window_mid(2) [OF mid] show ?thesis by (simp split: if_splits)
  next
    case big
    with window_whole [OF big] assms show ?thesis by auto
  qed
  with False show ?thesis by auto
qed

lemma marginR_Cons:
  "marginR width (row0 # rows) =
     (if 0 < width - int (length row0) * 2
      then Continue (map (\<lambda>row. replicate (nat ((width - int (length row0) * 2) div 2)) (CHR ''.'') @ row)
                     (row0 # rows))
      else Exited [] ''warning: too narrow screen\<newline>'')"
proof (cases "0 < width - int (length row0) * 2")
  case True
  then have "py_int (of_int (width - int (length row0) * 2) / 2) = (width - int (length row0) * 2) div 2"
    by (intro py_int_half) simp
  with True show ?thesis
    by (simp add: marginR_def py_index_def Let_def del: of_int_diff of_int_mult)
next
  case False
  then show ?thesis
    by (simp add: marginR_def py_index_def Let_def)
qed

lemma msgStartR_total: "\<exists>r. msgStartR w face msg L = Inr r"
proof -
  obtain r where "scanRows face (countChar w msg) 0 0 = Inr r"
    using scanRows_total by blast
  then show ?thesis
    by (simp add: msgStartR_def Let_def)
qed

text \<open>
  C5. In Right alignment, with \<open>row0\<close> the first row of the visible face, the run ends
  with exactly the warning line on standard error and nothing on standard output if
  and only if \<open>width - 2 * length row0 <= 0\<close>; when this margin is positive, every row
  is prefixed with \<open>margin div 2\<close> background characters and the renderer is called
  with these rows.
\<close>

theorem narrow_screen_right:
  assumes "faceWindow showWhole face (lineNumOf (sanitize raw)) = row0 # rows"
  shows "(techo w AlignR showWhole face width raw = Exited [] ''warning: too narrow screen\<newline>'') =
           (width - int (length row0) * 2 \<le> 0) \<and>
         (0 < width - int (length row0) * 2 \<longrightarrow>
           (\<exists>msgStart. techo w AlignR showWhole face width raw =
              Continue \<lparr>r_align = AlignR,
                        r_face = map (\<lambda>row. replicate (nat ((width - int (length row0) * 2) div 2)) (CHR ''.'') @ row)
                                   (row0 # rows),
                        r_width = width, r_msg = sanitize raw, r_msgStart = msgStart\<rparr>))"
proof (cases "0 < width - int (length row0) * 2")
  case True
  let ?face' = "map (\<lambda>row. replicate (nat ((width - int (length row0) * 2) div 2)) (CHR ''.'') @ row) (row0 # rows)"
  obtain r where r: "msgStartR w ?face' (sanitize raw) (lineNumOf (sanitize raw)) = Inr r"
    using msgStartR_total by blast
  have "techo w AlignR showWhole face width raw =
      Continue \<lparr>r_align = AlignR, r_face = ?face', r_width = width, r_msg = sanitize raw,
                r_msgStart = r\<rparr>"
    using True r by (simp only: techo_def Let_def assms marginR_Cons if_True outcome.case sum.case) simp
  with True show ?thesis by auto
next
  case False
  have "techo w AlignR showWhole face width raw = Exited [] ''warning: too narrow screen\<newline>''"
    using False by (simp only: techo_def Let_def assms marginR_Cons if_True if_False outcome.case) simp
  with False show ?thesis by simp
qed

theorem narrow_screen_right_witness:
  "faceWindow True face0 (lineNumOf (sanitize [104, 105])) = hd face0 # tl face0 \<and>
   techo sample_width AlignR True face0 50 [104, 105] = Exited [] ''warning: too narrow screen\<newline>'' \<and>
   (\<exists>msgStart. techo sample_width AlignR True face0 52 [104, 105] =
      Continue \<lparr>r_align = AlignR, r_face = map (\<lambda>row. CHR ''.'' # row) face0,
                r_width = 52, r_msg = sanitize [104, 105], r_msgStart = msgStart\<rparr>)"
proof -
  have h: "faceWindow True face0 (lineNumOf (sanitize [104, 105])) = hd face0 # tl face0"
    by (simp add: faceWindow_def face0_def)
  have l: "length (hd face0) = 25" by (simp add: face0_def)
  have f: "hd face0 # tl face0 = face0" by (simp add: face0_def)
  from narrow_screen_right [OF h, of sample_width 50] narrow_screen_right [OF h, of sample_width 52]
  show ?thesis using h by (simp add: l f)
qed

section \<open>The Sanitizer\<close>

lemma fold_lines:
  "fold (\<lambda>s msgTmp. msgTmp @ f s @ [10]) ls acc = acc @ joinLines (map f ls)"
  by (induction ls arbitrary: acc) (simp_all add: joinLines_def)

lemma sanitize_eq:
  "sanitize raw = joinLines (map strip_ctrl (splitlines (rstrip_nl (replace_tab raw))))"
  by (simp add: sanitize_def fold_lines Let_def)

lemma joinLines_simps:
  "joinLines [] = []"
  "joinLines (l # ls) = l @ 10 # joinLines ls"
  "joinLines (ks @ ls) = joinLines ks @ joinLines ls"
  by (simp_all add: joinLines_def)

lemma joinLines_replicate_empty: "joinLines (replicate k []) = replicate k 10"
  by (induction k) (simp_all add: joinLines_simps)

lemma linebreak_10: "is_linebreak 10"
  by (simp add: is_linebreak_def)

lemma ctrl_9: "is_ctrl 9"
  by (simp add: is_ctrl_def)

subsection \<open>Splitting into lines\<close>

lemma splitlines_from_crlf:
  "splitlines_from cur (13 # 10 # ds) = cur # splitlines_from [] ds"
  by (simp add: is_linebreak_def)

lemma splitlines_from_break:
  "is_linebreak c \<Longrightarrow> \<not> (c = 13 \<and> (\<exists>ds. cs = 10 # ds)) \<Longrightarrow>
   splitlines_from cur (c # cs) = cur # splitlines_from [] cs"
  by (cases cs) auto

lemma splitlines_from_char:
  "\<not> is_linebreak c \<Longrightarrow> splitlines_from cur (c # cs) = splitlines_from (cur @ [c]) cs"
  by simp

lemma splitlines_from_no_break:
  "\<forall>c\<in>set cur. \<not> is_linebreak c \<Longrightarrow> l \<in> set (splitlines_from cur s) \<Longrightarrow>
   c \<in> set l \<Longrightarrow> \<not> is_linebreak c"
proof (induction "length s" arbitrary: s cur rule: less_induct)
  case less
  show ?case
  proof (cases s)
    case Nil
    with less.prems show ?thesis
      by (cases "cur = []") auto
  next
    case (Cons a cs)
    consider (crlf) ds where "a = 13" "cs = 10 # ds"
      | (brk) "is_linebreak a" "\<not> (a = 13 \<and> (\<exists>ds. cs = 10 # ds))"
      | (chr) "\<not> is_linebreak a"
      by blast
    then show ?thesis
    proof cases
      case crlf
      have eq: "splitlines_from cur s = cur # splitlines_from [] ds"
        unfolding Cons crlf by (rule splitlines_from_crlf)
      from less.prems(2) have "l = cur \<or> l \<in> set (splitlines_from [] ds)"
        by (simp add: eq)
      then show ?thesis
      proof
        assume "l = cur"
        with less.prems show ?thesis by blast
      next
        assume m: "l \<in> set (splitlines_from [] ds)"
        have "length ds < length s" using Cons crlf by simp
        from less.hyps [OF this _ m less.prems(3)] show ?thesis by simp
      qed
    next
      case brk
      have eq: "splitlines_from cur s = cur # splitlines_from [] cs"
        unfolding Cons by (rule splitlines_from_break [OF brk])
      from less.prems(2) have "l = cur \<or> l \<in> set (splitlines_from [] cs)"
        by (simp add: eq)
      then show ?thesis
      proof
        assume "l = cur"
        with less.prems show ?thesis by blast
      next
        assume m: "l \<in> set (splitlines_from [] cs)"
        have "length cs < length s" using Cons by simp
        from less.hyps [OF this _ m less.prems(3)] show ?thesis by simp
      qed
    next
      case chr
      have eq: "splitlines_from cur s = splitlines_from (cur @ [a]) cs"
        unfolding Cons by (rule splitlines_from_char [OF chr])
      have m: "l \<in> set (splitlines_from (cur @ [a]) cs)"
        using less.prems(2) by (simp only: eq)
      have c: "\<forall>c\<in>set (cur @ [a]). \<not> is_linebreak c"
        using less.prems(1) chr by simp
      have "length cs < length s" using Cons by simp
      from less.hyps [OF this c m less.prems(3)] show ?thesis .
    qed
  qed
qed

lemma splitlines_no_break:
  "l \<in> set (splitlines s) \<Longrightarrow> c \<in> set l \<Longrightarrow> \<not> is_linebreak c"
  using splitlines_from_no_break [of "[]" l s c] by (simp add: splitlines_def)

lemma splitlines_from_line:
  "\<forall>c\<in>set l. \<not> is_linebreak c \<Longrightarrow>
   splitlines_from cur (l @ 10 # rest) = (cur @ l) # splitlines_from [] rest"
proof (induction l arbitrary: cur)
  case Nil
  show ?case by (cases rest) (simp_all add: linebreak_10)
next
  case (Cons c l)
  then have "splitlines_from cur ((c # l) @ 10 # rest) = splitlines_from (cur @ [c]) (l @ 10 # rest)"
    by simp
  also have "\<dots> = ((cur @ [c]) @ l) # splitlines_from [] rest"
    using Cons by simp
  finally show ?case by simp
qed

lemma splitlines_from_last:
  "\<forall>c\<in>set l. \<not> is_linebreak c \<Longrightarrow>
   splitlines_from cur l = (if cur @ l = [] then [] else [cur @ l])"
  by (induction l arbitrary: cur) simp_all

lemma splitlines_joinLines:
  assumes "\<forall>k\<in>set ks. \<forall>c\<in>set k. \<not> is_linebreak c" "\<forall>c\<in>set l. \<not> is_linebreak c"
  shows "splitlines (joinLines ks @ l) = ks @ (if l = [] then [] else [l])"
  using assms
proof (induction ks)
  case Nil
  then show ?case
    by (simp add: splitlines_def joinLines_simps splitlines_from_last)
next
  case (Cons k ks)
  then have "splitlines_from [] (k @ 10 # (joinLines ks @ l)) =
      ([] @ k) # splitlines_from [] (joinLines ks @ l)"
    by (intro splitlines_from_line) simp
  with Cons show ?case
    by (simp add: splitlines_def joinLines_simps)
qed

subsection \<open>rstrip and the other passes on clean text\<close>

lemma rstrip_nl_replicate: "rstrip_nl (s @ replicate k 10) = rstrip_nl s"
proof -
  have "dropWhile (\<lambda>c. c = 10) (replicate k 10 @ rev s) = dropWhile (\<lambda>c. c = (10::nat)) (rev s)"
    by (induction k) simp_all
  then show ?thesis by (simp add: rstrip_nl_def)
qed

lemma rstrip_nl_keep: "s \<noteq> [] \<Longrightarrow> last s \<noteq> 10 \<Longrightarrow> rstrip_nl s = s"
  by (cases s rule: rev_cases) (simp_all add: rstrip_nl_def)

lemma rstrip_nl_Nil: "rstrip_nl [] = []"
  by (simp add: rstrip_nl_def)

lemma replace_tab_id: "\<forall>c\<in>set s. c \<noteq> 9 \<Longrightarrow> replace_tab s = s"
  by (induction s) (simp_all add: replace_tab_def)

lemma strip_ctrl_id: "\<forall>c\<in>set s. \<not> is_ctrl c \<Longrightarrow> strip_ctrl s = s"
  by (induction s) (simp_all add: strip_ctrl_def)

lemma set_joinLines: "c \<in> set (joinLines ls) \<Longrightarrow> c = 10 \<or> (\<exists>l\<in>set ls. c \<in> set l)"
  by (induction ls) (auto simp add: joinLines_simps)

lemma joinLines_last: "joinLines ls \<noteq> [] \<Longrightarrow> last (joinLines ls) = 10"
  by (induction ls) (simp_all add: joinLines_simps)

subsection \<open>Lines of the Sanitizer\<close>

lemma sanitize_lines_clean:
  "l \<in> set (map strip_ctrl (splitlines s)) \<Longrightarrow> cleanLine l"
  by (auto simp add: cleanLine_def strip_ctrl_def dest: splitlines_no_break)

lemma trailing_empty_lines:
  "\<exists>ks k. ls = ks @ replicate k [] \<and> (ks = [] \<or> last ks \<noteq> [])"
proof (induction ls rule: rev_induct)
  case Nil
  have "[] = [] @ replicate 0 [] \<and> ([] = [] \<or> last [] \<noteq> [])" by simp
  then show ?case by blast
next
  case (snoc x xs)
  show ?case
  proof (cases "x = []")
    case False
    then have "xs @ [x] = (xs @ [x]) @ replicate 0 [] \<and> (xs @ [x] = [] \<or> last (xs @ [x]) \<noteq> [])"
      by simp
    then show ?thesis by blast
  next
    case True
    from snoc obtain ks k where "xs = ks @ replicate k []" "ks = [] \<or> last ks \<noteq> []"
      by blast
    with True have "xs @ [x] = ks @ replicate (Suc k) [] \<and> (ks = [] \<or> last ks \<noteq> [])"
      by (simp add: replicate_append_same)
    then show ?thesis by blast
  qed
qed

lemma joinLines_snoc: "joinLines (ks @ [l]) = joinLines ks @ l @ [10]"
  by (simp add: joinLines_simps)

lemma clean_not_tab: "cleanLine l \<Longrightarrow> c \<in> set l \<Longrightarrow> c \<noteq> 9"
  using ctrl_9 unfolding cleanLine_def by blast

lemma clean_not_newline: "cleanLine l \<Longrightarrow> c \<in> set l \<Longrightarrow> c \<noteq> 10"
  using linebreak_10 unfolding cleanLine_def by blast

lemma sanitize_joinLines:
  assumes clean: "\<forall>l\<in>set ks. cleanLine l" and ne: "ks = [] \<or> last ks \<noteq> []"
  shows "sanitize (joinLines ks @ replicate k 10) = joinLines ks"
proof -
  let ?y = "joinLines ks @ replicate k 10"
  have no9: "\<forall>c\<in>set ?y. c \<noteq> 9"
  proof
    fix c assume "c \<in> set ?y"
    then have "c = 10 \<or> (\<exists>l\<in>set ks. c \<in> set l)"
      by (auto dest: set_joinLines)
    then show "c \<noteq> 9"
    proof
      assume "c = 10" then show ?thesis by simp
    next
      assume "\<exists>l\<in>set ks. c \<in> set l"
      then obtain l where "l \<in> set ks" "c \<in> set l" by blast
      with clean show ?thesis using clean_not_tab by blast
    qed
  qed
  then have rt: "replace_tab ?y = ?y" by (rule replace_tab_id)
  have nb: "\<forall>l\<in>set ks. \<forall>c\<in>set l. \<not> is_linebreak c"
    using clean by (simp add: cleanLine_def)
  have nc: "\<forall>l\<in>set ks. strip_ctrl l = l"
    using clean by (auto simp add: cleanLine_def intro: strip_ctrl_id)
  show ?thesis
  proof (cases "ks = []")
    case True
    have "rstrip_nl ([] @ replicate k 10) = rstrip_nl []" by (rule rstrip_nl_replicate)
    then have "rstrip_nl (replicate k 10) = []" by (simp add: rstrip_nl_Nil)
    with True show ?thesis
      by (simp add: sanitize_eq rt [unfolded True] joinLines_simps splitlines_def replace_tab_id)
  next
    case False
    with ne have lne: "last ks \<noteq> []" by simp
    let ?b = "joinLines (butlast ks) @ last ks"
    have jk: "joinLines ks = ?b @ [10]"
      using joinLines_snoc [of "butlast ks" "last ks"] False by simp
    have jy: "?y = ?b @ replicate (Suc k) 10"
      by (simp add: jk)
    have "last ks \<in> set ks" using False by simp
    with clean have cl: "cleanLine (last ks)" by blast
    have "last (last ks) \<in> set (last ks)" using lne by simp
    with cl have "last (last ks) \<noteq> 10" by (rule clean_not_newline)
    then have "last ?b \<noteq> 10" using lne by simp
    moreover have "?b \<noteq> []" using lne by simp
    ultimately have "rstrip_nl ?b = ?b" by (intro rstrip_nl_keep)
    then have rs: "rstrip_nl ?y = ?b"
      by (simp only: jy rstrip_nl_replicate)
    have nb': "\<forall>l\<in>set (butlast ks). \<forall>c\<in>set l. \<not> is_linebreak c"
      using nb by (auto dest: in_set_butlastD)
    have nbl: "\<forall>c\<in>set (last ks). \<not> is_linebreak c"
      using cl by (simp add: cleanLine_def)
    have "splitlines ?b = butlast ks @ (if last ks = [] then [] else [last ks])"
      using nb' nbl by (rule splitlines_joinLines)
    then have sp: "splitlines ?b = ks"
      using lne False by simp
    have "map strip_ctrl ks = ks"
      using nc by (simp add: map_idI)
    then show ?thesis
      by (simp only: sanitize_eq rt rs sp)
  qed
qed

lemma sanitize_shape:
  "\<exists>ks k. sanitize raw = joinLines ks @ replicate k 10 \<and> (\<forall>l\<in>set ks. cleanLine l) \<and>
     (ks = [] \<or> last ks \<noteq> [])"
proof -
  let ?ls = "map strip_ctrl (splitlines (rstrip_nl (replace_tab raw)))"
  obtain ks k where d: "?ls = ks @ replicate k []" "ks = [] \<or> last ks \<noteq> []"
    using trailing_empty_lines [of ?ls] by blast
  have "\<forall>l\<in>set ?ls. cleanLine l"
    using sanitize_lines_clean by blast
  then have "\<forall>l\<in>set (ks @ replicate k []). cleanLine l"
    by (simp only: d)
  then have "\<forall>l\<in>set ks. cleanLine l" by simp
  moreover have "sanitize raw = joinLines ks @ replicate k 10"
    by (simp only: sanitize_eq d joinLines_simps joinLines_replicate_empty)
  ultimately show ?thesis using d(2) by blast
qed

lemma endsWithEmptyLine_snoc2: "endsWithEmptyLine (s @ [x, y]) = (y = 10 \<and> x = 10)"
  by (simp add: endsWithEmptyLine_def)

lemma replicate_Suc_Suc_snoc: "replicate (Suc (Suc i)) x = replicate i x @ [x, x]"
  by (induction i) simp_all

lemma endsWithEmptyLine_shape:
  assumes "\<forall>l\<in>set ks. cleanLine l" "ks = [] \<or> last ks \<noteq> []"
  shows "endsWithEmptyLine (joinLines ks @ replicate k 10) = (0 < k)"
proof (cases "ks = []")
  case True
  show ?thesis
  proof (cases k)
    case 0
    with True show ?thesis by (simp add: endsWithEmptyLine_def joinLines_simps)
  next
    case (Suc j)
    show ?thesis
    proof (cases j)
      case 0
      with Suc True show ?thesis by (simp add: endsWithEmptyLine_def joinLines_simps)
    next
      case (Suc i)
      have "endsWithEmptyLine (replicate i 10 @ [10, 10])"
        by (simp only: endsWithEmptyLine_snoc2)
      then show ?thesis
        using True \<open>k = Suc j\<close> Suc
        by (simp only: joinLines_simps append_Nil replicate_Suc_Suc_snoc) simp
    qed
  qed
next
  case False
  with assms have lne: "last ks \<noteq> []" by simp
  obtain xs x where lx: "last ks = xs @ [x]"
    using lne by (cases "last ks" rule: rev_cases) auto
  have "last ks \<in> set ks" using False by simp
  with assms(1) have "cleanLine (last ks)" by blast
  moreover have "x \<in> set (last ks)" using lx by simp
  ultimately have x10: "x \<noteq> 10" by (rule clean_not_newline)
  have "joinLines ks = joinLines (butlast ks) @ last ks @ [10]"
    using joinLines_snoc [of "butlast ks" "last ks"] False by simp
  then have j: "joinLines ks = (joinLines (butlast ks) @ xs) @ [x, 10]"
    by (simp add: lx)
  show ?thesis
  proof (cases k)
    case 0
    have "endsWithEmptyLine ((joinLines (butlast ks) @ xs) @ [x, 10]) = False"
      using x10 by (simp only: endsWithEmptyLine_snoc2) simp
    with 0 show ?thesis by (simp add: j)
  next
    case (Suc i)
    have "joinLines ks @ replicate k 10 =
        (joinLines (butlast ks) @ xs @ [x] @ replicate i 10) @ [10, 10]"
      unfolding j Suc using replicate_Suc_Suc_snoc [of i "10::nat"] by simp
    then have "endsWithEmptyLine (joinLines ks @ replicate k 10)"
      by (simp only: endsWithEmptyLine_snoc2)
    with Suc show ?thesis by simp
  qed
qed


subsection \<open>Text whose only line boundary is the newline\<close>

lemma strip_ctrl_simps:
  "strip_ctrl [] = []"
  "strip_ctrl (a @ b) = strip_ctrl a @ strip_ctrl b"
  "c \<noteq> 10 \<Longrightarrow> strip_ctrl [c] = filter (\<lambda>c. c = 10 \<or> \<not> is_ctrl c) [c]"
  by (simp_all add: strip_ctrl_def)

lemma splitlines_from_plain:
  assumes "\<forall>c\<in>set s. is_linebreak c \<longrightarrow> c = 10" "10 \<notin> set cur"
  shows "joinLines (map strip_ctrl (splitlines_from cur s)) =
           strip_ctrl cur @ filter (\<lambda>c. c = 10 \<or> \<not> is_ctrl c) s @
           (if cur @ s \<noteq> [] \<and> last (cur @ s) \<noteq> 10 then [10] else [])"
  using assms
proof (induction s arbitrary: cur)
  case Nil
  show ?case
  proof (cases "cur = []")
    case True
    then show ?thesis by (simp add: joinLines_simps strip_ctrl_simps)
  next
    case False
    then have "last cur \<in> set cur" by simp
    with Nil.prems(2) have "last cur \<noteq> 10" by metis
    with False show ?thesis by (simp add: joinLines_simps)
  qed
next
  case (Cons c cs)
  have rest: "\<forall>c\<in>set cs. is_linebreak c \<longrightarrow> c = 10"
    using Cons.prems(1) by simp
  show ?case
  proof (cases "c = 10")
    case True
    have "splitlines_from cur (c # cs) = cur # splitlines_from [] cs"
      using True by (intro splitlines_from_break) (simp_all add: linebreak_10)
    moreover have "joinLines (map strip_ctrl (splitlines_from [] cs)) =
        strip_ctrl [] @ filter (\<lambda>c. c = 10 \<or> \<not> is_ctrl c) cs @
        (if [] @ cs \<noteq> [] \<and> last ([] @ cs) \<noteq> 10 then [10] else [])"
      using rest by (intro Cons.IH) simp_all
    ultimately show ?thesis
      using True by (simp add: joinLines_simps strip_ctrl_simps del: splitlines_from.simps(2))
  next
    case False
    with Cons.prems(1) have nl: "\<not> is_linebreak c" by auto
    have "splitlines_from cur (c # cs) = splitlines_from (cur @ [c]) cs"
      using nl by (rule splitlines_from_char)
    moreover have "joinLines (map strip_ctrl (splitlines_from (cur @ [c]) cs)) =
        strip_ctrl (cur @ [c]) @ filter (\<lambda>c. c = 10 \<or> \<not> is_ctrl c) cs @
        (if (cur @ [c]) @ cs \<noteq> [] \<and> last ((cur @ [c]) @ cs) \<noteq> 10 then [10] else [])"
      using rest Cons.prems(2) False by (intro Cons.IH) simp_all
    ultimately show ?thesis
      using False by (simp add: strip_ctrl_simps del: splitlines_from.simps(2))
  qed
qed

lemma rstrip_nl_last: "rstrip_nl s \<noteq> [] \<Longrightarrow> last (rstrip_nl s) \<noteq> 10"
  using hd_dropWhile [of "\<lambda>c. c = 10" "rev s"]
  by (simp add: rstrip_nl_def last_rev)

lemma set_rstrip_nl: "set (rstrip_nl s) \<subseteq> set s"
  using set_dropWhileD [of _ "\<lambda>c. c = 10" "rev s"] by (auto simp add: rstrip_nl_def)

lemma replace_tab_plain:
  assumes "\<forall>c\<in>set s. is_linebreak c \<longrightarrow> c = 10"
  shows "\<forall>c\<in>set (replace_tab s). is_linebreak c \<longrightarrow> c = 10"
proof (intro ballI impI)
  fix c assume m: "c \<in> set (replace_tab s)" and lb: "is_linebreak c"
  from m obtain d where d: "d \<in> set s" "c = (if d = 9 then 32 else d)"
    unfolding replace_tab_def by auto
  have n32: "\<not> is_linebreak 32" by (simp add: is_linebreak_def)
  have "c = d"
  proof (cases "d = 9")
    case True
    with d have "c = 32" by simp
    with lb n32 show ?thesis by simp
  next
    case False
    with d show ?thesis by simp
  qed
  with assms d(1) lb show "c = 10" by blast
qed

lemma sanitize_plain:
  assumes "\<forall>c\<in>set raw. is_linebreak c \<longrightarrow> c = 10"
  shows "sanitize raw =
     (if rstrip_nl (replace_tab raw) = [] then []
      else filter (\<lambda>c. c = 10 \<or> \<not> is_ctrl c) (rstrip_nl (replace_tab raw)) @ [10])"
proof -
  let ?s = "rstrip_nl (replace_tab raw)"
  have "\<forall>c\<in>set (replace_tab raw). is_linebreak c \<longrightarrow> c = 10"
    using assms by (rule replace_tab_plain)
  then have p: "\<forall>c\<in>set ?s. is_linebreak c \<longrightarrow> c = 10"
    using set_rstrip_nl [of "replace_tab raw"] by blast
  have "joinLines (map strip_ctrl (splitlines_from [] ?s)) =
      strip_ctrl [] @ filter (\<lambda>c. c = 10 \<or> \<not> is_ctrl c) ?s @
      (if [] @ ?s \<noteq> [] \<and> last ([] @ ?s) \<noteq> 10 then [10] else [])"
    using p by (intro splitlines_from_plain) simp_all
  then have "sanitize raw = filter (\<lambda>c. c = 10 \<or> \<not> is_ctrl c) ?s @
      (if ?s \<noteq> [] \<and> last ?s \<noteq> 10 then [10] else [])"
    by (simp add: sanitize_eq splitlines_def strip_ctrl_def)
  then show ?thesis
    using rstrip_nl_last [of "replace_tab raw"] by (cases "?s = []") simp_all
qed

lemma sanitize_chars: "c \<in> set (sanitize raw) \<Longrightarrow> c = 10 \<or> \<not> is_ctrl c"
proof -
  assume "c \<in> set (sanitize raw)"
  then have "c = 10 \<or> (\<exists>l\<in>set (map strip_ctrl (splitlines (rstrip_nl (replace_tab raw)))). c \<in> set l)"
    unfolding sanitize_eq by (rule set_joinLines)
  then show ?thesis
    by (auto simp add: strip_ctrl_def)
qed

text \<open>
  C7, as the code has it. For every raw input the Sanitizer returns the lines of the
  input, each followed by one newline, where the lines are those of the input after
  every tab is replaced by a space and all trailing newlines are removed, split at
  every line boundary of \<open>str.splitlines\<close>, each with its C0 control characters and DEL
  removed. The output holds no tab and no C0 or DEL character other than the newline;
  it is empty on empty input and otherwise ends in a newline. When the newline is the
  only line boundary in the input, the output is the input with its trailing newlines
  removed, every tab replaced by a space and every C0 or DEL character other than the
  newline removed, followed by one newline (or empty, when nothing is left).
\<close>

theorem sanitize_output:
  "sanitize raw = joinLines (map strip_ctrl (splitlines (rstrip_nl (replace_tab raw)))) \<and>
   (\<forall>c\<in>set (sanitize raw). c \<noteq> 9 \<and> (c = 10 \<or> \<not> is_ctrl c)) \<and>
   sanitize [] = [] \<and>
   (sanitize raw \<noteq> [] \<longrightarrow> last (sanitize raw) = 10) \<and>
   ((\<forall>c\<in>set raw. is_linebreak c \<longrightarrow> c = 10) \<longrightarrow>
      sanitize raw =
        (if rstrip_nl (replace_tab raw) = [] then []
         else filter (\<lambda>c. c = 10 \<or> \<not> is_ctrl c) (rstrip_nl (replace_tab raw)) @ [10]))"
proof (intro conjI)
  show "sanitize raw = joinLines (map strip_ctrl (splitlines (rstrip_nl (replace_tab raw))))"
    by (rule sanitize_eq)
  show "\<forall>c\<in>set (sanitize raw). c \<noteq> 9 \<and> (c = 10 \<or> \<not> is_ctrl c)"
    using sanitize_chars ctrl_9 by fastforce
  show "sanitize [] = []"
    by (simp add: sanitize_def replace_tab_def rstrip_nl_def splitlines_def)
  show "sanitize raw \<noteq> [] \<longrightarrow> last (sanitize raw) = 10"
    unfolding sanitize_eq using joinLines_last by blast
  show "(\<forall>c\<in>set raw. is_linebreak c \<longrightarrow> c = 10) \<longrightarrow>
      sanitize raw =
        (if rstrip_nl (replace_tab raw) = [] then []
         else filter (\<lambda>c. c = 10 \<or> \<not> is_ctrl c) (rstrip_nl (replace_tab raw)) @ [10])"
    using sanitize_plain by blast
qed

theorem sanitize_output_witness:
  "sanitize [97, 9, 98, 1, 10, 99, 10] = [97, 32, 98, 10, 99, 10]"
proof -
  have h: "\<forall>c\<in>set [97, 9, 98, 1, 10, 99, 10]. is_linebreak c \<longrightarrow> c = (10::nat)"
    by (simp add: is_linebreak_def)
  from sanitize_output [of "[97, 9, 98, 1, 10, 99, 10]"] h
  have "sanitize [97, 9, 98, 1, 10, 99, 10] =
      (if rstrip_nl (replace_tab [97, 9, 98, 1, 10, 99, 10]) = [] then []
       else filter (\<lambda>c. c = 10 \<or> \<not> is_ctrl c) (rstrip_nl (replace_tab [97, 9, 98, 1, 10, 99, 10])) @ [10])"
    by blast
  then show ?thesis
    by (simp add: replace_tab_def rstrip_nl_def is_ctrl_def)
qed

text \<open>
  C7 fails as stated: the output for \<open>hi\<close> followed by a newline still ends in a
  newline, and the carriage return between \<open>a\<close> and \<open>b\<close> becomes a newline instead of
  being removed.
\<close>

theorem sanitize_keeps_final_newline:
  "sanitize [104, 105, 10] = [104, 105, 10] \<and> sanitize [97, 13, 98] = [97, 10, 98, 10]"
  by (simp add: sanitize_def replace_tab_def rstrip_nl_def splitlines_def is_linebreak_def
      strip_ctrl_def is_ctrl_def)

text \<open>
  C9, as the code has it. Applying the Sanitizer to its own output returns that output
  unchanged if and only if the output does not end in an empty line; applying it once
  more changes nothing in any case.
\<close>

theorem sanitize_twice:
  "(sanitize (sanitize raw) = sanitize raw) = (\<not> endsWithEmptyLine (sanitize raw)) \<and>
   sanitize (sanitize (sanitize raw)) = sanitize (sanitize raw)"
proof -
  obtain ks k where sh: "sanitize raw = joinLines ks @ replicate k 10"
      and cl: "\<forall>l\<in>set ks. cleanLine l" and ne: "ks = [] \<or> last ks \<noteq> []"
    using sanitize_shape [of raw] by blast
  have s2: "sanitize (joinLines ks @ replicate k 10) = joinLines ks"
    using cl ne by (rule sanitize_joinLines)
  have "sanitize (joinLines ks @ replicate 0 10) = joinLines ks"
    using cl ne by (rule sanitize_joinLines)
  then have s3: "sanitize (joinLines ks) = joinLines ks" by simp
  have e: "endsWithEmptyLine (joinLines ks @ replicate k 10) = (0 < k)"
    using cl ne by (rule endsWithEmptyLine_shape)
  show ?thesis
    unfolding sh by (simp add: s2 s3 e)
qed

text \<open>
  C9 fails on \<open>a\<close> followed by two CR LF pairs: the output is \<open>a\<close> and two newlines, and
  the Sanitizer turns that into \<open>a\<close> and one newline.
\<close>

theorem sanitize_not_idempotent:
  "sanitize [97, 13, 10, 13, 10] = [97, 10, 10] \<and> sanitize [97, 10, 10] = [97, 10]"
  by (simp add: sanitize_def replace_tab_def rstrip_nl_def splitlines_def is_linebreak_def
      strip_ctrl_def is_ctrl_def)

end
